theory Spec2Isabelle
  imports Main "HOL-Library.Word" "HOL-Library.Sublist"
begin

section \<open>PKCS#7 padding of byte slices (pkcs7.go)\<close>

text \<open>
  The package has two functions, \<open>Pad\<close> and \<open>Unpad\<close>, on Go byte slices. A byte slice
  is a list of 8-bit words. Go's \<open>int\<close> is modelled by \<open>int\<close>: \<open>Pad\<close> compares
  \<open>blockSize\<close> with 1 and 255 before any arithmetic, and \<open>Unpad\<close> only subtracts a byte
  value from a length that is at least as large, so no operation of either function can
  leave the range of a machine integer.

  Both functions return \<open>([]byte, error)\<close>, and every error is \<open>errors.New(msg)\<close>: a
  failure is the message text. The run-time panics of Go (index or slice bound out of
  range, division by zero, a negative count for \<open>bytes.Repeat\<close>) are a failure of their
  own, \<open>Panic\<close>, so that the absence of a panic is a statement about the model.
\<close>

type_synonym byte = "8 word"

datatype failure = Error string | Panic

subsection \<open>The operations of Go that the two functions use\<close>

text \<open>\<open>byte(n)\<close> for an \<open>int\<close> keeps the low 8 bits; \<open>int(b)\<close> for a byte is its value.\<close>

definition byte_of :: "int \<Rightarrow> byte" where
  "byte_of n = word_of_int n"

definition int_of :: "byte \<Rightarrow> int" where
  "int_of b = uint b"

text \<open>\<open>a % b\<close> truncates towards zero and panics when \<open>b\<close> is zero.\<close>

definition go_rem :: "int \<Rightarrow> int \<Rightarrow> int option" where
  "go_rem a b = (if b = 0 then None else Some (sgn a * (\<bar>a\<bar> mod \<bar>b\<bar>)))"

text \<open>\<open>bytes.Repeat(b, count)\<close>: \<open>count\<close> copies of \<open>b\<close>; a negative count panics.\<close>

definition bytes_Repeat :: "byte list \<Rightarrow> int \<Rightarrow> byte list option" where
  "bytes_Repeat b count =
     (if count < 0 then None else Some (concat (replicate (nat count) b)))"

text \<open>\<open>s[i]\<close>, \<open>s[lo:]\<close> and \<open>s[:hi]\<close> with the bounds checks of the run time. The capacity
  of a slice is taken to be its length, the least it can be: a bound that is in range
  here is in range for every capacity.\<close>

definition index :: "byte list \<Rightarrow> int \<Rightarrow> byte option" where
  "index s i = (if 0 \<le> i \<and> i < int (length s) then Some (s ! nat i) else None)"

definition slice_from :: "byte list \<Rightarrow> int \<Rightarrow> byte list option" where
  "slice_from s lo = (if 0 \<le> lo \<and> lo \<le> int (length s) then Some (drop (nat lo) s) else None)"

definition slice_to :: "byte list \<Rightarrow> int \<Rightarrow> byte list option" where
  "slice_to s hi = (if 0 \<le> hi \<and> hi \<le> int (length s) then Some (take (nat hi) s) else None)"

subsection \<open>The error messages\<close>

definition msg_block_size :: string where
  "msg_block_size = ''pkcs7: block size must be between 1 and 255 inclusive''"

definition msg_empty :: string where
  "msg_empty = ''pkcs7: source must not be empty slice''"

definition msg_mismatch :: string where
  "msg_mismatch = ''pkcs7: invalid padding (last byte does not match padding)''"

definition msg_too_large :: string where
  "msg_too_large = ''pkcs7: invalid padding (last byte is larger than total length)''"

text \<open>
  The code has no error types, only texts. The three kinds of failure are told apart as
  the package's tests do, by \<open>strings.Contains(err.Error(), v.errorString)\<close>: the tests
  look for the whole block-size message and for \<open>pkcs7: invalid padding\<close>.
\<close>

definition strings_Contains :: "string \<Rightarrow> string \<Rightarrow> bool" where
  "strings_Contains s substr = sublist substr s"

definition InvalidBlockSize :: "failure \<Rightarrow> bool" where
  "InvalidBlockSize f =
     (case f of Error m \<Rightarrow> strings_Contains m msg_block_size | Panic \<Rightarrow> False)"

definition EmptyInput :: "failure \<Rightarrow> bool" where
  "EmptyInput f = (case f of Error m \<Rightarrow> strings_Contains m msg_empty | Panic \<Rightarrow> False)"

definition InvalidPadding :: "failure \<Rightarrow> bool" where
  "InvalidPadding f =
     (case f of Error m \<Rightarrow> strings_Contains m ''pkcs7: invalid padding'' | Panic \<Rightarrow> False)"

subsection \<open>Pad\<close>

definition Pad :: "byte list \<Rightarrow> int \<Rightarrow> failure + byte list" where
  "Pad src blockSize =
     (if blockSize < 1 \<or> blockSize > 255 then Inl (Error msg_block_size)
      else
        (case go_rem (int (length src)) blockSize of
           None \<Rightarrow> Inl Panic
         | Some r \<Rightarrow>
             (let padLen = blockSize - r;
                  padding = [byte_of padLen]
              in case bytes_Repeat padding padLen of
                   None \<Rightarrow> Inl Panic
                 | Some padding' \<Rightarrow> Inr (src @ padding'))))"

subsection \<open>Unpad\<close>

text \<open>The loop \<open>for i := 0; i < padLen; i++\<close> over \<open>padding\<close>: \<open>None\<close> when it runs to its
  end, the failure when it returns early or an index is out of range.\<close>

function Unpad_loop :: "byte list \<Rightarrow> int \<Rightarrow> int \<Rightarrow> failure option" where
  "Unpad_loop padding padLen i =
     (if i < padLen then
        (case index padding i of
           None \<Rightarrow> Some Panic
         | Some b \<Rightarrow>
             if b \<noteq> byte_of padLen then Some (Error msg_mismatch)
             else Unpad_loop padding padLen (i + 1))
      else None)"
  by pat_completeness auto
termination
  by (relation "measure (\<lambda>(padding, padLen, i). nat (padLen - i))") auto

declare Unpad_loop.simps [simp del]

definition Unpad :: "byte list \<Rightarrow> failure + byte list" where
  "Unpad src =
     (let len = int (length src) in
      if len \<le> 0 then Inl (Error msg_empty)
      else
        (case index src (len - 1) of
           None \<Rightarrow> Inl Panic
         | Some lastByte \<Rightarrow>
             (let padLen = int_of lastByte in
              if padLen = 0 then Inl (Error msg_mismatch)
              else if padLen > len then Inl (Error msg_too_large)
              else
                (let origLen = len - padLen in
                 case slice_from src origLen of
                   None \<Rightarrow> Inl Panic
                 | Some padding \<Rightarrow>
                     (case Unpad_loop padding padLen 0 of
                        Some f \<Rightarrow> Inl f
                      | None \<Rightarrow>
                          (case slice_to src origLen of
                             None \<Rightarrow> Inl Panic
                           | Some out \<Rightarrow> Inr out))))))"

section \<open>Properties\<close>

subsection \<open>The operations of Go\<close>

lemma go_rem_nonneg: "0 \<le> a \<Longrightarrow> 0 < b \<Longrightarrow> go_rem a b = Some (a mod b)"
  by (cases "a = 0") (simp_all add: go_rem_def)

lemma byte_of_int_of: "byte_of (int_of b) = b"
  by (simp add: byte_of_def int_of_def)

lemma int_of_byte_of: "0 \<le> n \<Longrightarrow> n \<le> 255 \<Longrightarrow> int_of (byte_of n) = n"
  by (simp add: byte_of_def int_of_def uint_word_of_int take_bit_int_eq_self)

lemma bytes_Repeat_single: "0 \<le> n \<Longrightarrow> bytes_Repeat [b] n = Some (replicate (nat n) b)"
  by (induction "nat n" arbitrary: n) (simp_all add: bytes_Repeat_def)

subsection \<open>The loop of Unpad\<close>

lemma int_range_step:
  fixes i n :: int
  assumes "i < n"
  shows "(\<forall>j. i \<le> j \<and> j < n \<longrightarrow> P j) = (P i \<and> (\<forall>j. i + 1 \<le> j \<and> j < n \<longrightarrow> P j))"
proof
  assume a: "\<forall>j. i \<le> j \<and> j < n \<longrightarrow> P j"
  show "P i \<and> (\<forall>j. i + 1 \<le> j \<and> j < n \<longrightarrow> P j)"
    using a assms by auto
next
  assume b: "P i \<and> (\<forall>j. i + 1 \<le> j \<and> j < n \<longrightarrow> P j)"
  show "\<forall>j. i \<le> j \<and> j < n \<longrightarrow> P j"
  proof (intro allI impI)
    fix j assume j: "i \<le> j \<and> j < n"
    show "P j"
    proof (cases "j = i")
      case True with b show ?thesis by simp
    next
      case False
      with j have "i + 1 \<le> j" by arith
      with b j show ?thesis by blast
    qed
  qed
qed

text \<open>When \<open>padding\<close> has at least \<open>padLen\<close> bytes, the loop never reads out of range, and
  it runs to its end exactly when the bytes from \<open>i\<close> on all are \<open>byte(padLen)\<close>.\<close>

lemma Unpad_loop_eq:
  "0 \<le> i \<Longrightarrow> padLen \<le> int (length padding) \<Longrightarrow>
   Unpad_loop padding padLen i =
     (if \<forall>j. i \<le> j \<and> j < padLen \<longrightarrow> padding ! nat j = byte_of padLen
      then None else Some (Error msg_mismatch))"
proof (induction padding padLen i rule: Unpad_loop.induct)
  case (1 padding padLen i)
  show ?case
  proof (cases "i < padLen")
    case False
    then show ?thesis by (subst Unpad_loop.simps) auto
  next
    case True
    with 1(2,3) have ix: "index padding i = Some (padding ! nat i)"
      by (simp add: index_def)
    note split = int_range_step [OF True, of "\<lambda>j. padding ! nat j = byte_of padLen"]
    show ?thesis
    proof (cases "padding ! nat i = byte_of padLen")
      case False
      have "Unpad_loop padding padLen i = Some (Error msg_mismatch)"
        using True ix False by (subst Unpad_loop.simps) simp
      with False split show ?thesis by simp
    next
      case eq: True
      have step: "Unpad_loop padding padLen i = Unpad_loop padding padLen (i + 1)"
        using True ix eq by (subst Unpad_loop.simps) simp
      have "0 \<le> i + 1" using 1(2) by simp
      from 1(1)[OF True ix _ this 1(3)] eq
      have "Unpad_loop padding padLen (i + 1) =
        (if \<forall>j. i + 1 \<le> j \<and> j < padLen \<longrightarrow> padding ! nat j = byte_of padLen
         then None else Some (Error msg_mismatch))" by simp
      with step split eq show ?thesis by simp
    qed
  qed
qed

text \<open>Bytes beyond index \<open>padLen - 1\<close> have no effect on the loop: it does not read them.\<close>

lemma Unpad_loop_append:
  assumes "int (length padding) = padLen"
  shows "Unpad_loop (padding @ extra) padLen 0 = Unpad_loop padding padLen 0"
proof -
  have "(\<forall>j. 0 \<le> j \<and> j < padLen \<longrightarrow> (padding @ extra) ! nat j = byte_of padLen) =
        (\<forall>j. 0 \<le> j \<and> j < padLen \<longrightarrow> padding ! nat j = byte_of padLen)"
    using assms by (auto simp: nth_append)
  then show ?thesis
    using assms Unpad_loop_eq [of 0 padLen padding] Unpad_loop_eq [of 0 padLen "padding @ extra"]
    by simp
qed

subsection \<open>Unpad on a non-empty slice\<close>

lemma all_padding_iff:
  "(\<forall>j::int. 0 \<le> j \<and> j < int (length xs) \<longrightarrow> xs ! nat j = b) = (\<forall>x\<in>set xs. x = b)"
proof
  assume a: "\<forall>j::int. 0 \<le> j \<and> j < int (length xs) \<longrightarrow> xs ! nat j = b"
  show "\<forall>x\<in>set xs. x = b"
  proof
    fix x assume "x \<in> set xs"
    then obtain k where k: "k < length xs" "xs ! k = x" by (auto simp: in_set_conv_nth)
    with a[rule_format, of "int k"] show "x = b" by simp
  qed
next
  assume "\<forall>x\<in>set xs. x = b"
  then show "\<forall>j::int. 0 \<le> j \<and> j < int (length xs) \<longrightarrow> xs ! nat j = b"
    by (auto simp: nat_less_iff)
qed

lemma int_of_unat: "int_of b = int (unat b)"
  by (simp add: int_of_def)

lemma Unpad_nonempty:
  assumes ne: "src \<noteq> []"
  shows "Unpad src =
     (if unat (last src) = 0 then Inl (Error msg_mismatch)
      else if length src < unat (last src) then Inl (Error msg_too_large)
      else if \<exists>b\<in>set (drop (length src - unat (last src)) src). b \<noteq> last src
        then Inl (Error msg_mismatch)
      else Inr (take (length src - unat (last src)) src))"
proof -
  define n where "n = unat (last src)"
  have len: "\<not> int (length src) \<le> 0" using ne by simp
  have ix: "index src (int (length src) - 1) = Some (last src)"
    using ne by (simp add: index_def last_conv_nth nat_diff_distrib')
  have pl: "int_of (last src) = int n" by (simp add: int_of_unat n_def)
  show ?thesis
  proof (cases "n = 0 \<or> length src < n")
    case True
    then show ?thesis
      unfolding n_def [symmetric] using len ix pl by (auto simp: Unpad_def Let_def)
  next
    case False
    then have n: "0 < n" "n \<le> length src" by auto
    define padding where "padding = drop (length src - n) src"
    have lp: "length padding = n" using n by (simp add: padding_def)
    have sf: "slice_from src (int (length src) - int n) = Some padding"
      using n by (simp add: slice_from_def padding_def nat_diff_distrib')
    have st: "slice_to src (int (length src) - int n) = Some (take (length src - n) src)"
      using n by (simp add: slice_to_def nat_diff_distrib')
    have b: "byte_of (int n) = last src"
      using byte_of_int_of [of "last src"] by (simp add: pl)
    have loop: "Unpad_loop padding (int n) 0 =
       (if \<forall>x\<in>set padding. x = last src then None else Some (Error msg_mismatch))"
      using Unpad_loop_eq [of 0 "int n" padding] all_padding_iff [of padding "last src"]
      by (simp add: lp b)
    have "Unpad src =
       (case Unpad_loop padding (int n) 0 of Some f \<Rightarrow> Inl f
        | None \<Rightarrow> Inr (take (length src - n) src))"
      using len ix pl n sf st by (simp add: Unpad_def Let_def split: option.split)
    with loop n show ?thesis
      unfolding n_def [symmetric] padding_def [symmetric] by auto
  qed
qed

subsection \<open>Pad on a valid and on an invalid block size\<close>

lemma padLen_bounds:
  fixes bs l :: int
  assumes "1 \<le> bs"
  shows "1 \<le> bs - l mod bs" "bs - l mod bs \<le> bs"
proof -
  have "0 \<le> l mod bs" "l mod bs < bs" using assms by simp_all
  then show "1 \<le> bs - l mod bs" "bs - l mod bs \<le> bs" by simp_all
qed

lemma Pad_valid:
  assumes "1 \<le> bs" "bs \<le> 255"
  shows "Pad s bs =
     Inr (s @ replicate (nat (bs - int (length s) mod bs)) (byte_of (bs - int (length s) mod bs)))"
proof -
  have r: "go_rem (int (length s)) bs = Some (int (length s) mod bs)"
    using assms by (simp add: go_rem_nonneg)
  have "0 \<le> bs - int (length s) mod bs"
    using padLen_bounds(1) [OF assms(1), of "int (length s)"] by simp
  then have rep: "bytes_Repeat [byte_of (bs - int (length s) mod bs)] (bs - int (length s) mod bs)
      = Some (replicate (nat (bs - int (length s) mod bs)) (byte_of (bs - int (length s) mod bs)))"
    by (rule bytes_Repeat_single)
  show ?thesis using assms r rep by (simp add: Pad_def Let_def)
qed

lemma Pad_invalid: "bs < 1 \<or> bs > 255 \<Longrightarrow> Pad s bs = Inl (Error msg_block_size)"
  by (simp add: Pad_def)

subsection \<open>Unpad on a slice that ends in well-formed padding\<close>

lemma unat_byte_of: "0 \<le> n \<Longrightarrow> n \<le> 255 \<Longrightarrow> unat (byte_of n) = nat n"
proof -
  assume "0 \<le> n" "n \<le> 255"
  then have "int (unat (byte_of n)) = n"
    using int_of_byte_of [of n] by (simp only: int_of_unat)
  then show ?thesis by linarith
qed

lemma Unpad_append_replicate:
  assumes "0 < k" "k \<le> 255"
  shows "Unpad (s @ replicate k (byte_of (int k))) = Inr s"
proof -
  let ?b = "byte_of (int k)"
  let ?p = "s @ replicate k ?b"
  have ne: "?p \<noteq> []" using assms by simp
  have l: "last ?p = ?b" using assms by simp
  have u: "unat ?b = k" using assms unat_byte_of [of "int k"] by simp
  have d: "drop (length ?p - k) ?p = replicate k ?b" by simp
  have t: "take (length ?p - k) ?p = s" by simp
  show ?thesis
    using assms by (simp only: Unpad_nonempty [OF ne] l u d t) simp
qed

subsection \<open>The kinds of the error messages\<close>

lemma InvalidPadding_mismatch: "InvalidPadding (Error msg_mismatch)"
  by (simp add: InvalidPadding_def strings_Contains_def msg_mismatch_def)

lemma InvalidPadding_too_large: "InvalidPadding (Error msg_too_large)"
  by (simp add: InvalidPadding_def strings_Contains_def msg_too_large_def)

lemma InvalidBlockSize_msg: "InvalidBlockSize (Error msg_block_size)"
  by (simp add: InvalidBlockSize_def strings_Contains_def)

lemma EmptyInput_msg: "EmptyInput (Error msg_empty)"
  by (simp add: EmptyInput_def strings_Contains_def)

lemma not_EmptyInput_mismatch: "\<not> EmptyInput (Error msg_mismatch)"
  by (simp add: EmptyInput_def strings_Contains_def msg_mismatch_def msg_empty_def sublist_Cons_right)

lemma not_EmptyInput_too_large: "\<not> EmptyInput (Error msg_too_large)"
  by (simp add: EmptyInput_def strings_Contains_def msg_too_large_def msg_empty_def sublist_Cons_right)

lemma msg_differ: "msg_mismatch \<noteq> msg_too_large"
  by (simp add: msg_mismatch_def msg_too_large_def)

lemma byte_differs_iff: "(unat (b :: byte) \<noteq> unat c) = (b \<noteq> c)"
  by (simp add: word_unat_eq_iff)

section \<open>The claims\<close>

text \<open>
  Claim C1 (round trip). For every block size from 1 to 255 and every byte sequence \<open>s\<close>,
  \<open>Pad\<close> succeeds, and \<open>Unpad\<close> of its result succeeds and returns exactly \<open>s\<close>.
\<close>

theorem Pad_Unpad_roundtrip:
  assumes "1 \<le> blockSize" "blockSize \<le> 255"
  shows "\<exists>padded. Pad s blockSize = Inr padded \<and> Unpad padded = Inr s"
proof -
  define padLen where "padLen = blockSize - int (length s) mod blockSize"
  have b: "1 \<le> padLen" "padLen \<le> blockSize"
    unfolding padLen_def using padLen_bounds [OF assms(1)] by simp_all
  have p: "Pad s blockSize = Inr (s @ replicate (nat padLen) (byte_of padLen))"
    unfolding padLen_def by (rule Pad_valid [OF assms])
  have "Unpad (s @ replicate (nat padLen) (byte_of (int (nat padLen)))) = Inr s"
    using b assms by (intro Unpad_append_replicate) simp_all
  with b have "Unpad (s @ replicate (nat padLen) (byte_of padLen)) = Inr s" by simp
  with p show ?thesis by simp
qed

theorem Pad_Unpad_roundtrip_witness:
  "(1::int) \<le> 8 \<and> (8::int) \<le> 255 \<and>
   (\<exists>padded. Pad [0xDE, 0xAD, 0xBE, 0xEF] 8 = Inr padded \<and> Unpad padded = Inr [0xDE, 0xAD, 0xBE, 0xEF])"
  using Pad_Unpad_roundtrip [of 8 "[0xDE, 0xAD, 0xBE, 0xEF]"] by simp

text \<open>
  Claim C2 (postcondition of \<open>Pad\<close>). For every byte sequence \<open>s\<close> and every block size
  from 1 to 255, with \<open>padLen = blockSize - (len(s) mod blockSize)\<close>, \<open>Pad\<close> returns \<open>s\<close>
  followed by \<open>padLen\<close> copies of the byte whose value is \<open>padLen\<close>, and \<open>padLen\<close> lies
  between 1 and \<open>blockSize\<close>. In particular padding \<open>DE AD BE EF\<close> to a block size of 8
  appends four bytes \<open>04\<close>.
\<close>

theorem Pad_postcondition:
  "(1 \<le> blockSize \<and> blockSize \<le> 255 \<longrightarrow>
      (let padLen = blockSize - int (length s) mod blockSize in
         Pad s blockSize = Inr (s @ replicate (nat padLen) (byte_of padLen)) \<and>
         int_of (byte_of padLen) = padLen \<and> 1 \<le> padLen \<and> padLen \<le> blockSize)) \<and>
   Pad [0xDE, 0xAD, 0xBE, 0xEF] 8 = Inr [0xDE, 0xAD, 0xBE, 0xEF, 0x04, 0x04, 0x04, 0x04]"
proof (intro conjI impI)
  assume a: "1 \<le> blockSize \<and> blockSize \<le> 255"
  define padLen where "padLen = blockSize - int (length s) mod blockSize"
  have b: "1 \<le> padLen" "padLen \<le> blockSize"
    unfolding padLen_def using a padLen_bounds [of blockSize] by simp_all
  have p: "Pad s blockSize = Inr (s @ replicate (nat padLen) (byte_of padLen))"
    unfolding padLen_def using a by (intro Pad_valid) simp_all
  have "int_of (byte_of padLen) = padLen"
    using a b by (intro int_of_byte_of) simp_all
  with b p show "let padLen = blockSize - int (length s) mod blockSize in
         Pad s blockSize = Inr (s @ replicate (nat padLen) (byte_of padLen)) \<and>
         int_of (byte_of padLen) = padLen \<and> 1 \<le> padLen \<and> padLen \<le> blockSize"
    unfolding padLen_def [symmetric] by (simp add: Let_def)
next
  have "Pad [0xDE, 0xAD, 0xBE, 0xEF] 8 = Inr ([0xDE, 0xAD, 0xBE, 0xEF] @ replicate (nat (8 - int (length [0xDE::byte, 0xAD, 0xBE, 0xEF]) mod 8)) (byte_of (8 - int (length [0xDE::byte, 0xAD, 0xBE, 0xEF]) mod 8)))"
    by (rule Pad_valid) simp_all
  then show "Pad [0xDE, 0xAD, 0xBE, 0xEF] 8 = Inr [0xDE, 0xAD, 0xBE, 0xEF, 0x04, 0x04, 0x04, 0x04]"
    by (simp add: byte_of_def numeral_eq_Suc)
qed

theorem Pad_postcondition_witness:
  "(1::int) \<le> 16 \<and> (16::int) \<le> 255 \<and>
   Pad [1, 2, 3] 16 = Inr ([1, 2, 3] @ replicate 13 13) \<and> int_of (byte_of 13) = 13"
  using Pad_postcondition [of 16 "[1, 2, 3]"] by (simp add: Let_def byte_of_def)

text \<open>
  Claim C3 (validation and result of \<open>Unpad\<close>). For a non-empty \<open>padded\<close> whose last byte
  has the value \<open>n\<close>, \<open>Unpad\<close> fails with an invalid-padding error if and only if \<open>n\<close> is 0,
  or \<open>n\<close> exceeds the length of \<open>padded\<close>, or one of the last \<open>n\<close> bytes differs from \<open>n\<close>;
  otherwise it succeeds and returns the first \<open>len(padded) - n\<close> bytes.
\<close>

theorem Unpad_validation:
  assumes "padded \<noteq> []"
  shows "let n = unat (last padded);
             invalid = (n = 0 \<or> length padded < n \<or>
                        (\<exists>b\<in>set (drop (length padded - n) padded). unat b \<noteq> n))
         in ((\<exists>f. Unpad padded = Inl f \<and> InvalidPadding f) = invalid) \<and>
            (\<not> invalid \<longrightarrow> Unpad padded = Inr (take (length padded - n) padded))"
proof -
  note u = Unpad_nonempty [OF assms] byte_differs_iff
  show ?thesis
    unfolding Let_def
    by (auto simp: u InvalidPadding_mismatch InvalidPadding_too_large)
qed

theorem Unpad_validation_witness:
  "[7, 3, 3, 3 :: byte] \<noteq> [] \<and> Unpad [7, 3, 3, 3] = Inr [7] \<and>
   \<not> (\<exists>f. Unpad [7, 3, 3, 3] = Inl f \<and> InvalidPadding f) \<and>
   (\<exists>f. Unpad [1, 2, 3, 0] = Inl f \<and> InvalidPadding f)"
  using Unpad_validation [of "[7, 3, 3, 3]"] Unpad_validation [of "[1, 2, 3, 0]"]
  by (simp add: Let_def)

text \<open>
  Claim C4 (one error for all three checks). As stated, with one message text for all
  three checks, the claim does not hold: a zero marker and a marker larger than the slice
  are reported with different texts.
\<close>

theorem Unpad_error_text_counterexample:
  "Unpad [0x00] = Inl (Error ''pkcs7: invalid padding (last byte does not match padding)'') \<and>
   Unpad [0x05] = Inl (Error ''pkcs7: invalid padding (last byte is larger than total length)'') \<and>
   Unpad [0x00] \<noteq> Unpad [0x05]"
  by (simp add: Unpad_nonempty msg_mismatch_def msg_too_large_def)

text \<open>
  Claim C4, amended. Whichever of the three checks fails, the error is an invalid-padding
  error (its text contains \<open>pkcs7: invalid padding\<close>). The zero marker and the mismatched
  padding byte carry the same text; the marker larger than the slice carries a text of
  its own.
\<close>

theorem Unpad_error_classification:
  assumes "padded \<noteq> []"
  shows "let n = unat (last padded) in
           (n = 0 \<longrightarrow> Unpad padded = Inl (Error msg_mismatch)) \<and>
           (length padded < n \<longrightarrow> Unpad padded = Inl (Error msg_too_large)) \<and>
           (0 < n \<and> n \<le> length padded \<and>
              (\<exists>b\<in>set (drop (length padded - n) padded). unat b \<noteq> n) \<longrightarrow>
              Unpad padded = Inl (Error msg_mismatch)) \<and>
           InvalidPadding (Error msg_mismatch) \<and> InvalidPadding (Error msg_too_large) \<and>
           msg_mismatch \<noteq> msg_too_large"
proof -
  note u = Unpad_nonempty [OF assms] byte_differs_iff
  show ?thesis
    unfolding Let_def
    by (auto simp: u InvalidPadding_mismatch InvalidPadding_too_large msg_differ)
qed

theorem Unpad_error_classification_witness:
  "Unpad [1, 2, 3, 0] = Inl (Error msg_mismatch) \<and>
   Unpad [1, 2, 3, 9] = Inl (Error msg_too_large) \<and>
   Unpad [1, 3, 2, 3] = Inl (Error msg_mismatch) \<and>
   InvalidPadding (Error msg_mismatch) \<and> InvalidPadding (Error msg_too_large) \<and>
   msg_mismatch \<noteq> msg_too_large"
  using Unpad_error_classification [of "[1, 2, 3, 0]"]
    Unpad_error_classification [of "[1, 2, 3, 9]"]
    Unpad_error_classification [of "[1, 3, 2, 3]"]
  by (simp add: Let_def)

text \<open>
  Claim C5 (block size out of range). \<open>Pad\<close> fails with the block-size error if and only
  if \<open>blockSize < 1\<close> or \<open>blockSize > 255\<close>, and then returns no sequence; block sizes 0 and
  256 fail, block sizes 1 and 255 succeed, for every source.
\<close>

theorem Pad_block_size:
  "((\<exists>f. Pad s blockSize = Inl f \<and> InvalidBlockSize f) = (blockSize < 1 \<or> blockSize > 255)) \<and>
   (blockSize < 1 \<or> blockSize > 255 \<longrightarrow> (\<forall>out. Pad s blockSize \<noteq> Inr out)) \<and>
   (\<exists>f. Pad s 0 = Inl f \<and> InvalidBlockSize f) \<and>
   (\<exists>f. Pad s 256 = Inl f \<and> InvalidBlockSize f) \<and>
   (\<exists>out. Pad s 1 = Inr out) \<and> (\<exists>out. Pad s 255 = Inr out)"
proof (intro conjI)
  show "(\<exists>f. Pad s blockSize = Inl f \<and> InvalidBlockSize f) = (blockSize < 1 \<or> blockSize > 255)"
  proof (cases "blockSize < 1 \<or> blockSize > 255")
    case True
    then show ?thesis using Pad_invalid [OF True, of s] InvalidBlockSize_msg by simp
  next
    case False
    then have "1 \<le> blockSize" "blockSize \<le> 255" by simp_all
    from Pad_valid [OF this, of s] False show ?thesis by simp
  qed
  show "blockSize < 1 \<or> blockSize > 255 \<longrightarrow> (\<forall>out. Pad s blockSize \<noteq> Inr out)"
    by (simp add: Pad_def)
  show "\<exists>f. Pad s 0 = Inl f \<and> InvalidBlockSize f"
    using Pad_invalid [of 0 s] InvalidBlockSize_msg by simp
  show "\<exists>f. Pad s 256 = Inl f \<and> InvalidBlockSize f"
    using Pad_invalid [of 256 s] InvalidBlockSize_msg by simp
  show "\<exists>out. Pad s 1 = Inr out" using Pad_valid [of 1 s] by simp
  show "\<exists>out. Pad s 255 = Inr out" using Pad_valid [of 255 s] by simp
qed

theorem Pad_block_size_witness:
  "(\<exists>f. Pad [1, 2, 3, 4] 256 = Inl f \<and> InvalidBlockSize f) \<and>
   (\<forall>out. Pad [1, 2, 3, 4] 256 \<noteq> Inr out)"
  using Pad_block_size [of "[1, 2, 3, 4]" 256] by simp

text \<open>
  Claim C6 (empty input). \<open>Unpad\<close> fails with the empty-input error if and only if its
  input is the empty sequence.
\<close>

theorem Unpad_empty_input:
  "((\<exists>f. Unpad padded = Inl f \<and> EmptyInput f) = (padded = [])) \<and>
   Unpad [] = Inl (Error msg_empty)"
proof (intro conjI)
  show e: "Unpad [] = Inl (Error msg_empty)" by (simp add: Unpad_def)
  show "(\<exists>f. Unpad padded = Inl f \<and> EmptyInput f) = (padded = [])"
  proof (cases "padded = []")
    case True
    with e EmptyInput_msg show ?thesis by simp
  next
    case False
    show ?thesis
      using False
      by (auto simp: Unpad_nonempty [OF False] not_EmptyInput_mismatch not_EmptyInput_too_large
          split: if_splits)
  qed
qed

theorem Unpad_empty_input_witness:
  "(\<exists>f. Unpad [] = Inl f \<and> EmptyInput f) \<and> \<not> (\<exists>f. Unpad [1, 2, 3, 0] = Inl f \<and> EmptyInput f)"
  using Unpad_empty_input [of "[]"] Unpad_empty_input [of "[1, 2, 3, 0]"] by simp

text \<open>
  Claim C7 (length of the padded sequence). For every block size from 1 to 255 the length
  of \<open>Pad(s, blockSize)\<close> is a multiple of \<open>blockSize\<close> and strictly greater than the
  length of \<open>s\<close>, also when the length of \<open>s\<close> is a multiple of \<open>blockSize\<close> already.
\<close>

theorem Pad_length:
  assumes "1 \<le> blockSize" "blockSize \<le> 255"
  shows "\<exists>padded. Pad s blockSize = Inr padded \<and>
           int (length padded) mod blockSize = 0 \<and> length s < length padded"
proof -
  define padLen where "padLen = blockSize - int (length s) mod blockSize"
  have b: "1 \<le> padLen"
    unfolding padLen_def using padLen_bounds(1) [OF assms(1)] by simp
  have p: "Pad s blockSize = Inr (s @ replicate (nat padLen) (byte_of padLen))"
    unfolding padLen_def by (rule Pad_valid [OF assms])
  have "int (length (s @ replicate (nat padLen) (byte_of padLen))) = int (length s) + padLen"
    using b by simp
  also have "\<dots> = int (length s) - int (length s) mod blockSize + blockSize"
    by (simp add: padLen_def)
  also have "\<dots> mod blockSize = 0"
    by (simp add: minus_mod_eq_mult_div)
  finally have m: "int (length (s @ replicate (nat padLen) (byte_of padLen))) mod blockSize = 0" .
  have "length s < length (s @ replicate (nat padLen) (byte_of padLen))"
    using b by simp
  with p m show ?thesis by simp
qed

theorem Pad_length_witness:
  "(1::int) \<le> 4 \<and> (4::int) \<le> 255 \<and>
   (\<exists>padded. Pad [1, 2, 3, 4] 4 = Inr padded \<and>
      int (length padded) mod 4 = 0 \<and> length [1, 2, 3, 4 :: byte] < length padded)"
  using Pad_length [of 4 "[1, 2, 3, 4]"] by simp

text \<open>
  Claim C8 (a full block of padding). When the length of \<open>s\<close> is a multiple of the block
  size, \<open>Pad\<close> appends exactly \<open>blockSize\<close> bytes, each of value \<open>blockSize\<close>; padding the
  empty sequence to 16 gives sixteen bytes \<open>10\<close> (hexadecimal), which \<open>Unpad\<close> turns back
  into the empty sequence.
\<close>

theorem Pad_full_block:
  "(1 \<le> blockSize \<and> blockSize \<le> 255 \<and> int (length s) mod blockSize = 0 \<longrightarrow>
      Pad s blockSize = Inr (s @ replicate (nat blockSize) (byte_of blockSize)) \<and>
      int_of (byte_of blockSize) = blockSize) \<and>
   Pad [] 16 = Inr (replicate 16 0x10) \<and>
   Unpad (replicate 16 0x10) = Inr []"
proof (intro conjI impI)
  assume a: "1 \<le> blockSize \<and> blockSize \<le> 255 \<and> int (length s) mod blockSize = 0"
  then have v: "1 \<le> blockSize" "blockSize \<le> 255" by simp_all
  from Pad_valid [OF v, of s] a
  show "Pad s blockSize = Inr (s @ replicate (nat blockSize) (byte_of blockSize))" by simp
  from v show "int_of (byte_of blockSize) = blockSize" by (intro int_of_byte_of) simp_all
next
  show "Pad [] 16 = Inr (replicate 16 0x10)"
    using Pad_valid [of 16 "[]"] by (simp add: byte_of_def)
  show "Unpad (replicate 16 0x10) = Inr []"
    using Unpad_append_replicate [of 16 "[]"] by (simp add: byte_of_def)
qed

theorem Pad_full_block_witness:
  "(1::int) \<le> 4 \<and> (4::int) \<le> 255 \<and> int (length [1, 2, 3, 4 :: byte]) mod 4 = 0 \<and>
   Pad [1, 2, 3, 4] 4 = Inr [1, 2, 3, 4, 4, 4, 4, 4]"
  using Pad_full_block [of 4 "[1, 2, 3, 4]"] by (simp add: byte_of_def numeral_eq_Suc)

text \<open>
  Claim C9 (no access out of range in \<open>Unpad\<close>). \<open>Unpad\<close> panics on no input. On a
  non-empty input the read of the last byte is in range, and once the marker \<open>n\<close> is known
  to lie between 1 and the length, \<open>origLen = len - n\<close> is not negative, both slice
  expressions are in range, the padding has exactly \<open>n\<close> bytes, every index from 0 to
  \<open>n - 1\<close> is in range, the loop reads no byte beyond them (bytes appended to the padding
  do not change its result), and the loop does not panic.
\<close>

theorem Unpad_no_panic:
  "Unpad src \<noteq> Inl Panic \<and>
   (src \<noteq> [] \<longrightarrow>
      index src (int (length src) - 1) = Some (last src) \<and>
      (let len = int (length src); n = int_of (last src) in
         1 \<le> n \<and> n \<le> len \<longrightarrow>
           0 \<le> len - n \<and>
           (\<exists>padding. slice_from src (len - n) = Some padding \<and>
              int (length padding) = n \<and>
              (\<forall>i. 0 \<le> i \<and> i < n \<longrightarrow> index padding i \<noteq> None) \<and>
              (\<forall>extra. Unpad_loop (padding @ extra) n 0 = Unpad_loop padding n 0) \<and>
              Unpad_loop padding n 0 \<noteq> Some Panic) \<and>
           slice_to src (len - n) \<noteq> None))"
proof (intro conjI impI)
  show "Unpad src \<noteq> Inl Panic"
  proof (cases "src = []")
    case True
    then show ?thesis by (simp add: Unpad_def)
  next
    case False
    show ?thesis by (simp add: Unpad_nonempty [OF False])
  qed
next
  assume ne: "src \<noteq> []"
  then show "index src (int (length src) - 1) = Some (last src)"
    by (simp add: index_def last_conv_nth nat_diff_distrib')
  show "let len = int (length src); n = int_of (last src) in
         1 \<le> n \<and> n \<le> len \<longrightarrow>
           0 \<le> len - n \<and>
           (\<exists>padding. slice_from src (len - n) = Some padding \<and>
              int (length padding) = n \<and>
              (\<forall>i. 0 \<le> i \<and> i < n \<longrightarrow> index padding i \<noteq> None) \<and>
              (\<forall>extra. Unpad_loop (padding @ extra) n 0 = Unpad_loop padding n 0) \<and>
              Unpad_loop padding n 0 \<noteq> Some Panic) \<and>
           slice_to src (len - n) \<noteq> None"
    unfolding Let_def
  proof (intro impI conjI)
    let ?len = "int (length src)" and ?n = "int_of (last src)"
    assume g: "1 \<le> ?n \<and> ?n \<le> ?len"
    then show "0 \<le> ?len - ?n" by simp
    from g show "slice_to src (?len - ?n) \<noteq> None" by (simp add: slice_to_def)
    let ?padding = "drop (nat (?len - ?n)) src"
    have sf: "slice_from src (?len - ?n) = Some ?padding" using g by (simp add: slice_from_def)
    have "int (length src - nat (?len - ?n)) = ?n" using g by arith
    then have lp: "int (length ?padding) = ?n" by (simp only: length_drop)
    have ix: "\<forall>i. 0 \<le> i \<and> i < ?n \<longrightarrow> index ?padding i \<noteq> None"
      using lp by (simp add: index_def)
    have np: "Unpad_loop ?padding ?n 0 \<noteq> Some Panic"
      using Unpad_loop_eq [of 0 ?n ?padding] lp by simp
    have ex: "\<forall>extra. Unpad_loop (?padding @ extra) ?n 0 = Unpad_loop ?padding ?n 0"
      using Unpad_loop_append [OF lp] by simp
    from sf lp ix ex np
    show "\<exists>padding. slice_from src (?len - ?n) = Some padding \<and>
              int (length padding) = ?n \<and>
              (\<forall>i. 0 \<le> i \<and> i < ?n \<longrightarrow> index padding i \<noteq> None) \<and>
              (\<forall>extra. Unpad_loop (padding @ extra) ?n 0 = Unpad_loop padding ?n 0) \<and>
              Unpad_loop padding ?n 0 \<noteq> Some Panic"
      by blast
  qed
qed

theorem Unpad_no_panic_witness:
  "Unpad [1, 3, 2, 3] \<noteq> Inl Panic \<and> index [1, 3, 2, 3] 3 = Some 3 \<and>
   (\<exists>padding. slice_from [1, 3, 2, 3] 1 = Some padding \<and> int (length padding) = 3 \<and>
      Unpad_loop padding 3 0 \<noteq> Some Panic) \<and>
   slice_to [1, 3, 2, 3] 1 \<noteq> None"
  using Unpad_no_panic [of "[1, 3, 2, 3]"] by (simp add: Let_def int_of_def) blast

text \<open>
  Claim C10 (\<open>Unpad\<close> shrinks its input). Whenever \<open>Unpad\<close> succeeds, the marker read from
  the last byte is at least 1, the output is shorter than the input by exactly that many
  bytes, hence strictly shorter, and never the input itself.
\<close>

theorem Unpad_shrinks:
  assumes "Unpad src = Inr out"
  shows "length out < length src \<and> out \<noteq> src \<and> 1 \<le> int_of (last src) \<and>
         length out = length src - unat (last src)"
proof -
  have ne: "src \<noteq> []" using assms by (auto simp: Unpad_def)
  from assms have n: "unat (last src) \<noteq> 0" "unat (last src) \<le> length src"
    and o: "out = take (length src - unat (last src)) src"
    by (auto simp: Unpad_nonempty [OF ne] split: if_splits)
  from n ne have l: "length out < length src" and e: "length out = length src - unat (last src)"
    unfolding o by simp_all
  from l have d: "out \<noteq> src" by auto
  have "int_of (last src) = int (unat (last src))" by (rule int_of_unat)
  with n have "1 \<le> int_of (last src)" by linarith
  with l e d show ?thesis by simp
qed

theorem Unpad_shrinks_witness:
  "Unpad [7, 3, 3, 3] = Inr [7] \<and> length [7 :: byte] < length [7, 3, 3, 3 :: byte] \<and>
   [7] \<noteq> [7, 3, 3, 3 :: byte] \<and> 1 \<le> int_of (last [7, 3, 3, 3])"
proof -
  have u: "Unpad [7, 3, 3, 3] = Inr [7]" by (simp add: Unpad_nonempty)
  from Unpad_shrinks [OF u] u show ?thesis by simp
qed

end
